theory Spec2Isabelle
  imports Main "HOL-Library.Char_ord" "HOL-Library.List_Lexorder" "HOL-Library.Sublist"
begin

section \<open>Strings, errors and Python dictionaries\<close>

text \<open>
  Table and column names are \<^typ>\<open>string\<close>s. With \<open>Char_ord\<close> and \<open>List_Lexorder\<close> the
  order on strings is the lexicographic order on character codes, which is the order
  Python's \<^verbatim>\<open>sorted\<close> uses on \<^verbatim>\<open>str\<close>. \<^verbatim>\<open>str.lower\<close> and \<^verbatim>\<open>str.upper\<close> are modelled on the
  ASCII letters (the names of the OMOP catalog are ASCII).
\<close>

definition lower_char :: "char \<Rightarrow> char" where
  "lower_char c =
     (if CHR ''A'' \<le> c \<and> c \<le> CHR ''Z'' then char_of (of_char c + (32::nat)) else c)"

definition upper_char :: "char \<Rightarrow> char" where
  "upper_char c =
     (if CHR ''a'' \<le> c \<and> c \<le> CHR ''z'' then char_of (of_char c - (32::nat)) else c)"

definition lower :: "string \<Rightarrow> string" where
  "lower s = map lower_char s"

definition upper :: "string \<Rightarrow> string" where
  "upper s = map upper_char s"

text \<open>
  The exceptions the modelled code raises. \<open>Exception msg\<close> is Python's
  \<^verbatim>\<open>raise Exception(msg)\<close>; \<open>IndexError\<close> is an index out of range; \<open>AttributeError\<close> is a
  missing attribute (\<^verbatim>\<open>getattr\<close> without default, or a method called on \<^verbatim>\<open>None\<close>);
  \<open>BackendError\<close> is whatever a call into the warehouse raises.
\<close>

datatype error =
    Exception string
  | IndexError
  | AttributeError
  | BackendError string

fun error_message :: "error \<Rightarrow> string" where
  "error_message (Exception msg) = msg"
| "error_message IndexError = ''''"
| "error_message AttributeError = ''''"
| "error_message (BackendError msg) = msg"

text \<open>
  A Python \<^verbatim>\<open>dict\<close> is an association list with distinct keys in insertion order:
  \<^verbatim>\<open>dict(pairs)\<close> inserts the pairs from left to right, a repeated key keeps its place and
  takes the later value.
\<close>

definition dict_set :: "'k \<Rightarrow> 'v \<Rightarrow> ('k \<times> 'v) list \<Rightarrow> ('k \<times> 'v) list" where
  "dict_set k v d = (if k \<in> fst ` set d then map (\<lambda>(k', v'). if k' = k then (k', v) else (k', v')) d
                     else d @ [(k, v)])"

definition dict :: "('k \<times> 'v) list \<Rightarrow> ('k \<times> 'v) list" where
  "dict pairs = foldl (\<lambda>d (k, v). dict_set k v d) [] pairs"

definition dict_keys :: "('k \<times> 'v) list \<Rightarrow> 'k set" where
  "dict_keys d = set (map fst d)"

section \<open>The schema catalog of \<^verbatim>\<open>EtlBase\<close> (etl\_base.py)\<close>

text \<open>
  \<^verbatim>\<open>_df_omop_tables\<close> and \<^verbatim>\<open>_df_omop_fields\<close> are the data frames read from the table-level
  and field-level CSV files of the common data model. A data frame is the list of its rows;
  the \<^verbatim>\<open>row_nr\<close> column that \<^verbatim>\<open>with_row_count\<close> adds is the position in the list. A null
  \<^verbatim>\<open>fkTableName\<close> or \<^verbatim>\<open>fkFieldName\<close> is \<open>None\<close>.
\<close>

record table_row =
  tl_cdmTableName :: string
  tl_schema :: string

record field_row =
  cdmTableName :: string
  cdmFieldName :: string
  isRequired :: string
  cdmDatatype :: string
  isPrimaryKey :: string
  isForeignKey :: string
  fkTableName :: "string option"
  fkFieldName :: "string option"

record etl_base =
  df_omop_tables :: "table_row list"
  df_omop_fields :: "field_row list"
  cdm_tables_fks_dependencies_resolved :: "string list list"

subsection \<open>The NOTE\_NLP correction of the constructor\<close>

text \<open>
  Lines 92--99 of etl\_base.py: the first row of the field metadata whose table is NOTE\_NLP
  and whose field is NOTE\_ID (both compared in upper case) is made a foreign key to
  NOTE.NOTE\_ID. Taking element 0 of an empty selection raises \<open>IndexError\<close>.
\<close>

definition is_note_nlp_note_id :: "field_row \<Rightarrow> bool" where
  "is_note_nlp_note_id r \<longleftrightarrow>
     upper (cdmTableName r) = ''NOTE_NLP'' \<and> upper (cdmFieldName r) = ''NOTE_ID''"

definition note_nlp_row_nr :: "field_row list \<Rightarrow> error + nat" where
  "note_nlp_row_nr df_fields =
     (case filter (\<lambda>i. is_note_nlp_note_id (df_fields ! i)) [0..<length df_fields] of
        [] \<Rightarrow> Inl IndexError
      | row_nr # _ \<Rightarrow> Inr row_nr)"

definition correct_note_nlp :: "field_row list \<Rightarrow> error + field_row list" where
  "correct_note_nlp df_fields =
     (case note_nlp_row_nr df_fields of
        Inl e \<Rightarrow> Inl e
      | Inr row_nr \<Rightarrow>
          Inr (df_fields[row_nr := (df_fields ! row_nr)\<lparr>isForeignKey := ''Yes'',
                                                 fkTableName := Some ''NOTE'',
                                                 fkFieldName := Some ''NOTE_ID''\<rparr>]))"

subsection \<open>The dependency resolver\<close>

text \<open>
  \<^verbatim>\<open>_build_fk_dependency_tree_of_tables\<close>, lines 142--156: the rows of the working tables
  whose foreign key is null or points into the working set are grouped by table name (polars
  leaves the order of the groups open; it matters only when two names differ in case alone),
  the nulls are dropped, and the dictionary is rebuilt with lower-cased names and without
  self references.
\<close>

definition fk_rows :: "field_row list \<Rightarrow> string list \<Rightarrow> field_row list" where
  "fk_rows df_fields tables =
     filter (\<lambda>r. cdmTableName r \<in> set tables \<and>
                 (case fkTableName r of None \<Rightarrow> True | Some fk \<Rightarrow> fk \<in> set tables)) df_fields"

definition group_by_table :: "field_row list \<Rightarrow> (string \<times> string list) list" where
  "group_by_table rows =
     map (\<lambda>k. (k, List.map_filter fkTableName (filter (\<lambda>r. cdmTableName r = k) rows)))
         (remdups (map cdmTableName rows))"

definition tables_with_fks_dict :: "field_row list \<Rightarrow> string list \<Rightarrow> (string \<times> string set) list" where
  "tables_with_fks_dict df_fields tables =
     dict (map (\<lambda>(k, v). (lower k, set (map lower v) - {lower k}))
               (dict (group_by_table (fk_rows df_fields tables))))"

text \<open>
  Lines 164--174, the \<^verbatim>\<open>while\<close> loop: \<open>t\<close> is the set of referenced names that are not keys
  together with the keys whose set is empty; an empty \<open>t\<close> raises, otherwise \<open>sorted(t)\<close> is
  the next tier, the keys with an empty set are dropped and \<open>t\<close> is taken out of every set.
\<close>

definition next_tier :: "(string \<times> string set) list \<Rightarrow> string set" where
  "next_tier d =
     (\<Union> (set (map snd d)) - set (map fst d)) \<union> set (map fst (filter (\<lambda>(k, v). v = {}) d))"

definition cleaned_up :: "string set \<Rightarrow> (string \<times> string set) list \<Rightarrow> (string \<times> string set) list" where
  "cleaned_up t d = map (\<lambda>(k, v). (k, v - t)) (filter (\<lambda>(k, v). v \<noteq> {}) d)"

definition remaining :: "(string \<times> string set) list \<Rightarrow> nat" where
  "remaining d =
     (\<Sum>(k, v) \<leftarrow> d. 1 + card (v \<inter> set (map fst d)) + (if v \<subseteq> set (map fst d) then 0 else 1))"

text \<open>
  The loop ends: every round either drops a key or takes a name that is not a key out of
  some set, so \<open>remaining\<close> decreases.
\<close>

lemma sum_list_filter_map_le:
  fixes f g :: "'a \<Rightarrow> nat"
  assumes "\<And>x. x \<in> set xs \<Longrightarrow> P x \<Longrightarrow> g x \<le> f x"
  shows "(\<Sum>x\<leftarrow>filter P xs. g x) \<le> (\<Sum>x\<leftarrow>xs. f x)"
  using assms by (induction xs) (auto simp: add_mono trans_le_add2)

lemma sum_list_filter_map_less:
  fixes f g :: "'a \<Rightarrow> nat"
  assumes "\<And>x. x \<in> set xs \<Longrightarrow> P x \<Longrightarrow> g x \<le> f x"
    and "\<exists>x\<in>set xs. (\<not> P x \<and> 0 < f x) \<or> (P x \<and> g x < f x)"
  shows "(\<Sum>x\<leftarrow>filter P xs. g x) < (\<Sum>x\<leftarrow>xs. f x)"
  using assms
proof (induction xs)
  case Nil
  then show ?case by simp
next
  case (Cons a xs)
  have le: "(\<Sum>x\<leftarrow>filter P xs. g x) \<le> (\<Sum>x\<leftarrow>xs. f x)"
    using Cons.prems(1) by (intro sum_list_filter_map_le) auto
  show ?case
  proof (cases "(\<not> P a \<and> 0 < f a) \<or> (P a \<and> g a < f a)")
    case True
    then show ?thesis using le by (auto simp: add_less_le_mono)
  next
    case False
    then have "\<exists>x\<in>set xs. (\<not> P x \<and> 0 < f x) \<or> (P x \<and> g x < f x)"
      using Cons.prems(2) by auto
    then have "(\<Sum>x\<leftarrow>filter P xs. g x) < (\<Sum>x\<leftarrow>xs. f x)"
      using Cons.IH Cons.prems(1) by auto
    moreover have "P a \<Longrightarrow> g a \<le> f a" using Cons.prems(1) by auto
    ultimately show ?thesis by (auto simp: add_le_less_mono)
  qed
qed

lemma cleaned_up_keys:
  "set (map fst (cleaned_up t d)) = {k. \<exists>v. (k, v) \<in> set d \<and> v \<noteq> {}}"
  by (force simp: cleaned_up_def)

lemma remaining_cleaned_up:
  assumes "next_tier d \<noteq> {}"
  shows "remaining (cleaned_up (next_tier d) d) < remaining d"
proof -
  let ?t = "next_tier d"
  let ?K = "set (map fst d)"
  let ?K' = "set (map fst (cleaned_up ?t d))"
  let ?f = "\<lambda>(k, v). 1 + card (v \<inter> ?K) + (if v \<subseteq> ?K then 0 else 1)"
  let ?g = "\<lambda>(k, v). 1 + card ((v - ?t) \<inter> ?K') + (if v - ?t \<subseteq> ?K' then 0 else (1::nat))"
  let ?P = "\<lambda>(k, v). v \<noteq> {}"
  have sub: "v - ?t \<subseteq> v \<inter> ?K" if "(k, v) \<in> set d" for k v
    using that by (force simp: next_tier_def)
  have sub': "v - ?t \<subseteq> ?K'" if "(k, v) \<in> set d" for k v
  proof
    fix x assume x: "x \<in> v - ?t"
    then have "x \<in> ?K" using sub[OF that] by auto
    then obtain w where w: "(x, w) \<in> set d" by auto
    have "w \<noteq> {}" using x w by (force simp: next_tier_def)
    then have "x \<in> {k. \<exists>v. (k, v) \<in> set d \<and> v \<noteq> {}}" using w by blast
    then show "x \<in> ?K'" by (simp only: cleaned_up_keys)
  qed
  have le: "?g x \<le> ?f x" if "x \<in> set d" for x
  proof -
    obtain k v where x: "x = (k, v)" by (cases x)
    have "card ((v - ?t) \<inter> ?K') \<le> card (v \<inter> ?K)"
      using sub[of k v] that x by (intro card_mono) auto
    moreover have "v - ?t \<subseteq> ?K'" using sub'[of k v] that x by simp
    ultimately show ?thesis using x by simp
  qed
  have strict: "\<exists>x\<in>set d. (\<not> ?P x \<and> 0 < ?f x) \<or> (?P x \<and> ?g x < ?f x)"
  proof (cases "\<exists>k. (k, {}) \<in> set d")
    case True
    then show ?thesis by force
  next
    case False
    then obtain x where "x \<in> \<Union> (set (map snd d)) - ?K"
      using assms by (force simp: next_tier_def)
    then obtain k v where kv: "(k, v) \<in> set d" "x \<in> v" "x \<notin> ?K" by force
    have "card ((v - ?t) \<inter> ?K') \<le> card (v \<inter> ?K)"
      using sub[OF kv(1)] by (intro card_mono) auto
    moreover have "v - ?t \<subseteq> ?K'" using sub'[OF kv(1)] by simp
    moreover have "\<not> v \<subseteq> ?K" using kv by auto
    ultimately have "?g (k, v) < ?f (k, v)" by simp
    moreover have "?P (k, v)" using kv by auto
    ultimately show ?thesis using kv(1) by blast
  qed
  have "remaining (cleaned_up ?t d) = (\<Sum>x\<leftarrow>filter ?P d. ?g x)"
    by (simp add: remaining_def cleaned_up_def comp_def case_prod_unfold)
  also have "\<dots> < (\<Sum>x\<leftarrow>d. ?f x)"
    using le strict by (intro sum_list_filter_map_less) auto
  finally show ?thesis by (simp add: remaining_def)
qed

text \<open>Line 170: \<^verbatim>\<open>raise Exception("Circular reference in FKs dependency graph")\<close>.\<close>

definition circular_reference :: error where
  "circular_reference = Exception ''Circular reference in FKs dependency graph''"

function build_loop ::
  "(string \<times> string set) list \<Rightarrow> string list list \<Rightarrow> error + string list list" where
  "build_loop tables_with_fks fk_dependency_tree =
     (if tables_with_fks = [] then Inr fk_dependency_tree
      else let t = next_tier tables_with_fks in
        if t = {} then Inl circular_reference
        else build_loop (cleaned_up t tables_with_fks)
                        (fk_dependency_tree @ [sorted_list_of_set t]))"
  by pat_completeness auto
termination
  by (relation "measure (\<lambda>(d, tree). remaining d)") (auto simp: remaining_cleaned_up)

declare build_loop.simps [simp del]

text \<open>
  Lines 158--162 come before the loop: the tables with no foreign key left are the first
  tier (it may be empty), they leave the dictionary and the sets of the others.
\<close>

definition build_fk_dependency_tree_of_tables ::
  "field_row list \<Rightarrow> string list \<Rightarrow> error + string list list" where
  "build_fk_dependency_tree_of_tables df_fields tables =
     (let tables_with_fks = tables_with_fks_dict df_fields tables;
          tables_with_no_fks = set (map fst (filter (\<lambda>(k, v). v = {}) tables_with_fks));
          fk_dependency_tree = [sorted_list_of_set tables_with_no_fks];
          tables_with_fks = map (\<lambda>(k, v). (k, v - tables_with_no_fks))
                                (filter (\<lambda>(k, v). k \<notin> tables_with_no_fks) tables_with_fks)
      in build_loop tables_with_fks fk_dependency_tree)"

text \<open>
  \<^verbatim>\<open>_resolve_cdm_tables_fks_dependencies\<close>, lines 121--136, on the object's state: the working
  set is read from the table-level frame, the tiers are stored in the object. When the
  resolver raises, the assignment does not happen and the object is as it was.
\<close>

definition working_tables :: "table_row list \<Rightarrow> string list" where
  "working_tables df_tables =
     map tl_cdmTableName
         (filter (\<lambda>r. tl_schema r = ''CDM'' \<or>
                      tl_cdmTableName r \<in> set [''CDM_SOURCE'', ''VOCABULARY'']) df_tables)"

definition resolve_cdm_tables_fks_dependencies :: "etl_base \<Rightarrow> error option \<times> etl_base" where
  "resolve_cdm_tables_fks_dependencies self =
     (let tables = working_tables (df_omop_tables self)
      in case build_fk_dependency_tree_of_tables (df_omop_fields self) tables of
           Inl e \<Rightarrow> (Some e, self)
         | Inr tree \<Rightarrow> (None, self\<lparr>cdm_tables_fks_dependencies_resolved := tree\<rparr>))"

text \<open>
  The constructor, lines 49--101: the resolved tiers start empty, the two frames are read,
  the NOTE\_NLP row is corrected and then the dependencies are resolved. An exception of
  either step leaves no object.
\<close>

definition init_etl_base :: "table_row list \<Rightarrow> field_row list \<Rightarrow> error + etl_base" where
  "init_etl_base tables_csv fields_csv =
     (case correct_note_nlp fields_csv of
        Inl e \<Rightarrow> Inl e
      | Inr df_fields \<Rightarrow>
          (case resolve_cdm_tables_fks_dependencies
                  \<lparr>df_omop_tables = tables_csv, df_omop_fields = df_fields,
                   cdm_tables_fks_dependencies_resolved = []\<rparr> of
             (Some e, _) \<Rightarrow> Inl e
           | (None, self) \<Rightarrow> Inr self))"

text \<open>The foreign-key graph a dictionary stands for.\<close>

definition fk_edges :: "(string \<times> string set) list \<Rightarrow> (string \<times> string) set" where
  "fk_edges d = {(k, fk). \<exists>v. (k, v) \<in> set d \<and> fk \<in> v}"

definition graph_nodes :: "(string \<times> string set) list \<Rightarrow> string set" where
  "graph_nodes d = set (map fst d) \<union> \<Union> (set (map snd d))"

definition is_dict :: "(string \<times> string set) list \<Rightarrow> bool" where
  "is_dict d \<longleftrightarrow> distinct (map fst d) \<and> (\<forall>v \<in> set (map snd d). finite v)"

subsection \<open>Properties of the resolver\<close>

lemma mem_values: "x \<in> \<Union> (set (map snd d)) \<longleftrightarrow> (\<exists>k v. (k, v) \<in> set d \<and> x \<in> v)"
  by force

lemma mem_empty_keys:
  "x \<in> set (map fst (filter (\<lambda>(k, v). v = {}) d)) \<longleftrightarrow> (x, {}) \<in> set d"
  by force

lemma mem_next_tier:
  "x \<in> next_tier d \<longleftrightarrow>
     (x \<notin> fst ` set d \<and> (\<exists>k v. (k, v) \<in> set d \<and> x \<in> v)) \<or> (x, {}) \<in> set d"
  unfolding next_tier_def Un_iff Diff_iff mem_values mem_empty_keys by auto

lemma mem_cleaned_up:
  "(k, w) \<in> set (cleaned_up t d) \<longleftrightarrow> (\<exists>v. (k, v) \<in> set d \<and> v \<noteq> {} \<and> w = v - t)"
  unfolding cleaned_up_def by auto




lemma is_dict_cleaned_up: "is_dict d \<Longrightarrow> is_dict (cleaned_up t d)"
proof -
  assume d: "is_dict d"
  have "map fst (cleaned_up t d) = map fst (filter (\<lambda>(k, v). v \<noteq> {}) d)"
    unfolding cleaned_up_def by (simp add: comp_def case_prod_unfold)
  moreover have "distinct (map fst (filter (\<lambda>(k, v). v \<noteq> {}) d))"
    using d unfolding is_dict_def by (simp add: distinct_map_filter)
  moreover have "finite w" if "w \<in> set (map snd (cleaned_up t d))" for w
  proof -
    have "w \<in> snd ` set (cleaned_up t d)" using that by simp
    then obtain k where "(k, w) \<in> set (cleaned_up t d)" by force
    then obtain v where "(k, v) \<in> set d" "w = v - t" unfolding mem_cleaned_up by blast
    then show ?thesis using d unfolding is_dict_def by force
  qed
  ultimately show ?thesis unfolding is_dict_def by simp
qed

lemma is_dict_unique: "is_dict d \<Longrightarrow> (k, v) \<in> set d \<Longrightarrow> (k, w) \<in> set d \<Longrightarrow> v = w"
  unfolding is_dict_def by (meson eq_key_imp_eq_value)

lemma finite_graph_nodes: "is_dict d \<Longrightarrow> finite (graph_nodes d)"
  unfolding is_dict_def graph_nodes_def by blast

lemma mem_graph_nodes:
  "x \<in> graph_nodes d \<longleftrightarrow> x \<in> fst ` set d \<or> (\<exists>k v. (k, v) \<in> set d \<and> x \<in> v)"
  unfolding graph_nodes_def Un_iff mem_values by simp

lemma next_tier_subset: "next_tier d \<subseteq> graph_nodes d"
proof
  fix x assume "x \<in> next_tier d"
  then have "(\<exists>k v. (k, v) \<in> set d \<and> x \<in> v) \<or> (x, {}) \<in> set d"
    unfolding mem_next_tier by blast
  then show "x \<in> graph_nodes d" unfolding mem_graph_nodes by force
qed


lemma next_tier_props:
  assumes "is_dict d"
  shows "finite (next_tier d)"
    and "\<And>k. (k, {}) \<in> set d \<Longrightarrow> k \<in> next_tier d"
    and "\<And>k v. (k, v) \<in> set d \<Longrightarrow> v \<noteq> {} \<Longrightarrow> k \<notin> next_tier d"
proof -
  show "finite (next_tier d)"
    by (rule finite_subset[OF next_tier_subset finite_graph_nodes[OF assms]])
  show "\<And>k. (k, {}) \<in> set d \<Longrightarrow> k \<in> next_tier d"
    by (simp add: mem_next_tier)
  show "k \<notin> next_tier d" if "(k, v) \<in> set d" "v \<noteq> {}" for k v
  proof
    assume "k \<in> next_tier d"
    moreover have "k \<in> fst ` set d" using that(1) by force
    ultimately have "(k, {}) \<in> set d" by (simp add: mem_next_tier)
    then show False using is_dict_unique[OF assms that(1)] that(2) by blast
  qed
qed





lemma build_loop_cycle:
  assumes "is_dict d" "S \<noteq> {}" "\<And>k. k \<in> S \<Longrightarrow> \<exists>v fk. (k, v) \<in> set d \<and> fk \<in> v \<and> fk \<in> S"
  shows "build_loop d tree = Inl circular_reference"
  using assms
proof (induction d tree rule: build_loop.induct)
  case (1 d tree)
  obtain k0 where "k0 \<in> S" using "1.prems"(2) by blast
  then obtain v0 where "(k0, v0) \<in> set d" using "1.prems"(3) by blast
  then have ne: "d \<noteq> []" by auto
  let ?t = "next_tier d"
  show ?case
  proof (cases "?t = {}")
    case True
    then show ?thesis using ne by (subst build_loop.simps) (simp add: Let_def)
  next
    case False
    have notin: "k \<notin> ?t" if kS: "k \<in> S" for k
    proof -
      obtain v fk where "(k, v) \<in> set d" "fk \<in> v" using "1.prems"(3)[OF kS] by blast
      then show ?thesis using next_tier_props(3)[OF "1.prems"(1), of k v] by blast
    qed
    have core: "\<exists>v fk. (k, v) \<in> set (cleaned_up ?t d) \<and> fk \<in> v \<and> fk \<in> S" if kS: "k \<in> S" for k
    proof -
      obtain v fk where v: "(k, v) \<in> set d" "fk \<in> v" "fk \<in> S"
        using "1.prems"(3)[OF kS] by blast
      have "v \<noteq> {}" using v(2) by blast
      then have "(k, v - ?t) \<in> set (cleaned_up ?t d)"
        using v(1) unfolding mem_cleaned_up by blast
      moreover have "fk \<in> v - ?t" using v(2) notin[OF v(3)] by blast
      ultimately show ?thesis using v(3) by blast
    qed
    have "build_loop (cleaned_up ?t d) (tree @ [sorted_list_of_set ?t]) = Inl circular_reference"
      using ne False is_dict_cleaned_up[OF "1.prems"(1)] "1.prems"(2) core
      by (intro "1.IH") auto
    then show ?thesis using False ne by (subst build_loop.simps) (simp add: Let_def)
  qed
qed

lemma cyclic_core:
  assumes "\<not> acyclic r"
  shows "\<exists>S. S \<noteq> {} \<and> (\<forall>x\<in>S. \<exists>y\<in>S. (x, y) \<in> r)"
proof -
  let ?S = "{x. (x, x) \<in> r\<^sup>+}"
  obtain x0 where "(x0, x0) \<in> r\<^sup>+" using assms unfolding acyclic_def by blast
  then have ne: "?S \<noteq> {}" by blast
  have step: "\<exists>y\<in>?S. (x, y) \<in> r" if "x \<in> ?S" for x
  proof -
    from that have xx: "(x, x) \<in> r\<^sup>+" by simp
    obtain y where y: "(x, y) \<in> r" "(y, x) \<in> r\<^sup>*"
      using tranclD[OF xx] by blast
    have "(y, y) \<in> r\<^sup>+" by (rule rtrancl_into_trancl1[OF y(2) y(1)])
    then have "y \<in> ?S" by simp
    then show ?thesis using y(1) by (rule_tac x = y in bexI)
  qed
  show ?thesis
    by (rule exI[of _ ?S]) (use ne step in blast)
qed

lemma dict_set_keys: "fst ` set (dict_set k v d) = insert k (fst ` set d)"
  unfolding dict_set_def by (auto simp: image_iff split: if_splits) force+

lemma map_fst_replace:
  "map fst (map (\<lambda>(k', v'). if k' = k then (k', v) else (k', v')) d) = map fst d"
  by (induction d) (simp_all add: case_prod_unfold)

lemma dict_set_distinct: "distinct (map fst d) \<Longrightarrow> distinct (map fst (dict_set k v d))"
  unfolding dict_set_def by (simp only: map_fst_replace split: if_splits) (simp add: image_iff)

lemma dict_set_entries: "set (dict_set k v d) \<subseteq> insert (k, v) (set d)"
  unfolding dict_set_def by (auto split: if_splits)

lemma foldl_dict_set:
  "distinct (map fst d) \<Longrightarrow>
   distinct (map fst (foldl (\<lambda>d (k, v). dict_set k v d) d ps)) \<and>
   set (foldl (\<lambda>d (k, v). dict_set k v d) d ps) \<subseteq> set d \<union> set ps \<and>
   fst ` set (foldl (\<lambda>d (k, v). dict_set k v d) d ps) = fst ` set d \<union> fst ` set ps"
proof (induction ps arbitrary: d)
  case Nil
  then show ?case by simp
next
  case (Cons p ps)
  obtain k v where p: "p = (k, v)" by (cases p)
  have "distinct (map fst (dict_set k v d))" using Cons.prems by (rule dict_set_distinct)
  from Cons.IH[OF this] show ?case
    using dict_set_entries[of k v d] dict_set_keys[of k v d] unfolding p by auto
qed

lemma dict_distinct: "distinct (map fst (dict ps))"
  unfolding dict_def using foldl_dict_set[of "[]" ps] by simp

lemma dict_entries: "set (dict ps) \<subseteq> set ps"
  unfolding dict_def using foldl_dict_set[of "[]" ps] by simp

lemma dict_keys_eq: "fst ` set (dict ps) = fst ` set ps"
  unfolding dict_def using foldl_dict_set[of "[]" ps] by simp

lemma is_dict_tables_with_fks: "is_dict (tables_with_fks_dict df_fields tables)"
proof -
  have "finite v" if "v \<in> set (map snd (tables_with_fks_dict df_fields tables))" for v
  proof -
    have "v \<in> snd ` set (tables_with_fks_dict df_fields tables)" using that by simp
    then obtain k where "(k, v) \<in> set (tables_with_fks_dict df_fields tables)" by force
    then have "(k, v) \<in> set (map (\<lambda>(k, v). (lower k, set (map lower v) - {lower k}))
               (dict (group_by_table (fk_rows df_fields tables))))"
      unfolding tables_with_fks_dict_def using dict_entries by blast
    then show ?thesis by auto
  qed
  then show ?thesis unfolding is_dict_def
    using dict_distinct[of "map (\<lambda>(k, v). (lower k, set (map lower v) - {lower k}))
               (dict (group_by_table (fk_rows df_fields tables)))"]
    unfolding tables_with_fks_dict_def by blast
qed

definition tables_with_no_fks :: "(string \<times> string set) list \<Rightarrow> string set" where
  "tables_with_no_fks d = set (map fst (filter (\<lambda>(k, v). v = {}) d))"

lemma mem_tables_with_no_fks: "k \<in> tables_with_no_fks d \<longleftrightarrow> (k, {}) \<in> set d"
  unfolding tables_with_no_fks_def by (rule mem_empty_keys)

lemma no_fks_props:
  assumes "is_dict d"
  shows "finite (tables_with_no_fks d)"
    and "tables_with_no_fks d \<subseteq> graph_nodes d"
    and "\<And>k. (k, {}) \<in> set d \<Longrightarrow> k \<in> tables_with_no_fks d"
    and "\<And>k v. (k, v) \<in> set d \<Longrightarrow> v \<noteq> {} \<Longrightarrow> k \<notin> tables_with_no_fks d"
proof -
  show "finite (tables_with_no_fks d)" unfolding tables_with_no_fks_def by simp
  show "tables_with_no_fks d \<subseteq> graph_nodes d"
  proof
    fix k assume "k \<in> tables_with_no_fks d"
    then have "(k, {}) \<in> set d" by (simp only: mem_tables_with_no_fks)
    then have "k \<in> fst ` set d" by force
    then show "k \<in> graph_nodes d" unfolding mem_graph_nodes by blast
  qed
  show "\<And>k. (k, {}) \<in> set d \<Longrightarrow> k \<in> tables_with_no_fks d"
    by (simp only: mem_tables_with_no_fks)
  show "k \<notin> tables_with_no_fks d" if kv: "(k, v) \<in> set d" "v \<noteq> {}" for k v
  proof
    assume "k \<in> tables_with_no_fks d"
    then have "(k, {}) \<in> set d" by (simp only: mem_tables_with_no_fks)
    then show False using is_dict_unique[OF assms kv(1)] kv(2) by blast
  qed
qed

lemma first_step_cleaned_up:
  assumes "is_dict d"
  shows "map (\<lambda>(k, v). (k, v - tables_with_no_fks d))
             (filter (\<lambda>(k, v). k \<notin> tables_with_no_fks d) d) =
         cleaned_up (tables_with_no_fks d) d"
proof -
  have "filter (\<lambda>(k, v). k \<notin> tables_with_no_fks d) d = filter (\<lambda>(k, v). v \<noteq> {}) d"
  proof (rule filter_cong[OF refl])
    fix x assume x: "x \<in> set d"
    obtain k v where kv: "x = (k, v)" by (cases x)
    have "k \<notin> tables_with_no_fks d \<longleftrightarrow> v \<noteq> {}"
      using no_fks_props(3,4)[OF assms] x unfolding kv by blast
    then show "(case x of (k, v) \<Rightarrow> k \<notin> tables_with_no_fks d) = (case x of (k, v) \<Rightarrow> v \<noteq> {})"
      unfolding kv by simp
  qed
  then show ?thesis unfolding cleaned_up_def by simp
qed

lemma build_eq:
  "build_fk_dependency_tree_of_tables df_fields tables =
     build_loop (cleaned_up (tables_with_no_fks (tables_with_fks_dict df_fields tables))
                            (tables_with_fks_dict df_fields tables))
                [sorted_list_of_set (tables_with_no_fks (tables_with_fks_dict df_fields tables))]"
  unfolding build_fk_dependency_tree_of_tables_def Let_def
  using first_step_cleaned_up[OF is_dict_tables_with_fks[of df_fields tables]]
  unfolding tables_with_no_fks_def by simp


lemma build_cyclic:
  assumes "\<not> acyclic (fk_edges (tables_with_fks_dict df_fields tables))"
  shows "build_fk_dependency_tree_of_tables df_fields tables = Inl circular_reference"
proof -
  let ?d = "tables_with_fks_dict df_fields tables"
  let ?t = "tables_with_no_fks ?d"
  have d: "is_dict ?d" by (rule is_dict_tables_with_fks)
  have d': "is_dict (cleaned_up ?t ?d)" using d by (rule is_dict_cleaned_up)
  obtain S where S: "S \<noteq> {}" "\<And>x. x \<in> S \<Longrightarrow> \<exists>y\<in>S. (x, y) \<in> fk_edges ?d"
    using cyclic_core[OF assms] by blast
  have entry: "\<exists>v fk. (k, v) \<in> set ?d \<and> fk \<in> v \<and> fk \<in> S" if kS: "k \<in> S" for k
    using S(2)[OF kS] unfolding fk_edges_def by blast
  have notin: "k \<notin> ?t" if kS: "k \<in> S" for k
  proof -
    obtain v fk where "(k, v) \<in> set ?d" "fk \<in> v" using entry[OF kS] by blast
    then show ?thesis using no_fks_props(4)[OF d, of k v] by blast
  qed
  have core: "\<exists>v fk. (k, v) \<in> set (cleaned_up ?t ?d) \<and> fk \<in> v \<and> fk \<in> S"
    if kS: "k \<in> S" for k
  proof -
    obtain v fk where v: "(k, v) \<in> set ?d" "fk \<in> v" "fk \<in> S" using entry[OF kS] by blast
    have "v \<noteq> {}" using v(2) by blast
    then have "(k, v - ?t) \<in> set (cleaned_up ?t ?d)"
      using v(1) unfolding mem_cleaned_up by blast
    moreover have "fk \<in> v - ?t" using v(2) notin[OF v(3)] by blast
    ultimately show ?thesis using v(3) by blast
  qed
  show ?thesis unfolding build_eq by (rule build_loop_cycle[OF d' S(1) core])
qed






subsection \<open>Example catalogs\<close>

text \<open>
  Scenario A of the specification (person, visit\_occurrence, condition\_occurrence) and a
  catalog in which two tables refer to each other.
\<close>

definition field :: "string \<Rightarrow> string \<Rightarrow> string \<Rightarrow> string \<Rightarrow> string option \<Rightarrow> field_row" where
  "field t f ty p fk =
     \<lparr>cdmTableName = t, cdmFieldName = f, isRequired = ''Yes'', cdmDatatype = ty,
      isPrimaryKey = p, isForeignKey = (if fk = None then ''No'' else ''Yes''),
      fkTableName = fk, fkFieldName = None\<rparr>"



definition cyclic_fields :: "field_row list" where
  "cyclic_fields =
     [field ''PERSON'' ''person_id'' ''integer'' ''Yes'' None,
      field ''VISIT_OCCURRENCE'' ''visit_detail_id'' ''integer'' ''No'' (Some ''VISIT_DETAIL''),
      field ''VISIT_DETAIL'' ''visit_occurrence_id'' ''integer'' ''No''
        (Some ''VISIT_OCCURRENCE'')]"

definition cyclic_tables :: "string list" where
  "cyclic_tables = [''PERSON'', ''VISIT_OCCURRENCE'', ''VISIT_DETAIL'']"



lemma cyclic_dict:
  "tables_with_fks_dict cyclic_fields cyclic_tables =
     [(''person'', {}), (''visit_occurrence'', {''visit_detail''}),
      (''visit_detail'', {''visit_occurrence''})]"
  by code_simp

lemma cyclic_build:
  "build_fk_dependency_tree_of_tables cyclic_fields cyclic_tables = Inl circular_reference"
  by code_simp

lemma not_named: "\<not> sublist ''visit_detail'' (error_message circular_reference)"
  by code_simp

subsection \<open>The claims about the resolver\<close>





definition cyclic_etl :: etl_base where
  "cyclic_etl =
     \<lparr>df_omop_tables = [\<lparr>tl_cdmTableName = ''PERSON'', tl_schema = ''CDM''\<rparr>,
                         \<lparr>tl_cdmTableName = ''VISIT_OCCURRENCE'', tl_schema = ''CDM''\<rparr>,
                         \<lparr>tl_cdmTableName = ''VISIT_DETAIL'', tl_schema = ''CDM''\<rparr>,
                         \<lparr>tl_cdmTableName = ''CONCEPT'', tl_schema = ''VOCAB''\<rparr>],
      df_omop_fields = cyclic_fields,
      cdm_tables_fks_dependencies_resolved = []\<rparr>"

lemma cyclic_etl_fields: "df_omop_fields cyclic_etl = cyclic_fields"
  by (simp add: cyclic_etl_def)

lemma cyclic_etl_tables: "working_tables (df_omop_tables cyclic_etl) = cyclic_tables"
  by code_simp

text \<open>
  Claim C2 as stated: on a graph that still has a cycle the resolver fails with an error that
  names every table of the cycle. It fails, but the error is the fixed message of line 170:
  for two tables that refer to each other the message does not contain the name of either.
\<close>

theorem cyclic_error_names_no_table_counterexample:
  "build_fk_dependency_tree_of_tables cyclic_fields cyclic_tables = Inl circular_reference \<and>
   (''visit_detail'', ''visit_detail'') \<in> (fk_edges (tables_with_fks_dict cyclic_fields cyclic_tables))\<^sup>+ \<and>
   \<not> sublist ''visit_detail'' (error_message circular_reference)"
proof -
  have e1: "(''visit_detail'', ''visit_occurrence'') \<in> fk_edges (tables_with_fks_dict cyclic_fields cyclic_tables)"
    unfolding cyclic_dict fk_edges_def by simp
  have e2: "(''visit_occurrence'', ''visit_detail'') \<in> fk_edges (tables_with_fks_dict cyclic_fields cyclic_tables)"
    unfolding cyclic_dict fk_edges_def by simp
  have "(''visit_detail'', ''visit_detail'') \<in> (fk_edges (tables_with_fks_dict cyclic_fields cyclic_tables))\<^sup>+"
    using e1 e2 by (rule trancl_into_trancl[OF r_into_trancl])
  then show ?thesis using cyclic_build not_named by simp
qed

text \<open>
  Claim C2, amended. On every input whose graph still has a cycle after the removal of the
  self references the resolver raises the exception of line 170, whose message is fixed and
  names no table; no tier list is returned, and the object that called the resolver keeps
  the tiers it had.
\<close>

theorem cyclic_graph_raises:
  assumes "\<not> acyclic (fk_edges (tables_with_fks_dict df_fields tables))"
  shows "build_fk_dependency_tree_of_tables df_fields tables =
           Inl (Exception ''Circular reference in FKs dependency graph'') \<and>
         (df_omop_fields self = df_fields \<and> working_tables (df_omop_tables self) = tables \<longrightarrow>
            resolve_cdm_tables_fks_dependencies self =
              (Some (Exception ''Circular reference in FKs dependency graph''), self))"
  using build_cyclic[OF assms]
  unfolding resolve_cdm_tables_fks_dependencies_def circular_reference_def Let_def by auto

lemma cyclic_not_acyclic: "\<not> acyclic (fk_edges (tables_with_fks_dict cyclic_fields cyclic_tables))"
proof -
  have e1: "(''visit_detail'', ''visit_occurrence'') \<in> fk_edges (tables_with_fks_dict cyclic_fields cyclic_tables)"
    unfolding cyclic_dict fk_edges_def by simp
  have e2: "(''visit_occurrence'', ''visit_detail'') \<in> fk_edges (tables_with_fks_dict cyclic_fields cyclic_tables)"
    unfolding cyclic_dict fk_edges_def by simp
  have "(''visit_detail'', ''visit_detail'') \<in> (fk_edges (tables_with_fks_dict cyclic_fields cyclic_tables))\<^sup>+"
    using e1 e2 by (rule trancl_into_trancl[OF r_into_trancl])
  then show ?thesis unfolding acyclic_def by blast
qed

theorem cyclic_graph_raises_witness:
  "\<not> acyclic (fk_edges (tables_with_fks_dict cyclic_fields cyclic_tables)) \<and>
   build_fk_dependency_tree_of_tables cyclic_fields cyclic_tables =
     Inl (Exception ''Circular reference in FKs dependency graph'') \<and>
   df_omop_fields cyclic_etl = cyclic_fields \<and>
   working_tables (df_omop_tables cyclic_etl) = cyclic_tables \<and>
   resolve_cdm_tables_fks_dependencies cyclic_etl =
     (Some (Exception ''Circular reference in FKs dependency graph''), cyclic_etl)"
  using cyclic_graph_raises[OF cyclic_not_acyclic, of cyclic_etl] cyclic_not_acyclic
    cyclic_etl_fields cyclic_etl_tables by simp








subsection \<open>The claim about the constructor\<close>

lemma filter_upt_first:
  assumes "filter P [0..<n] = i # rest"
  shows "i < n \<and> P i \<and> (\<forall>j<i. \<not> P j)"
proof -
  have mem: "i \<in> set (filter P [0..<n])" using assms by simp
  then have a: "i < n" "P i" by auto
  have "\<not> P j" if "j < i" for j
  proof
    assume "P j"
    then have "j \<in> set (filter P [0..<n])" using that a(1) by auto
    then have "j = i \<or> j \<in> set rest" using assms by simp
    moreover have "sorted (filter P [0..<n])" by (simp add: sorted_wrt_filter)
    then have "\<forall>x\<in>set rest. i \<le> x" using assms by simp
    ultimately show False using that by auto
  qed
  then show ?thesis using a by blast
qed

lemma filter_upt_empty: "filter P [0..<n] = [] \<longleftrightarrow> (\<forall>j<n. \<not> P j)"
  by (auto simp: filter_empty_conv)

lemma correct_note_nlp_Inr:
  assumes "correct_note_nlp fields_csv = Inr df"
  shows "\<exists>row_nr<length fields_csv.
           is_note_nlp_note_id (fields_csv ! row_nr) \<and>
           (\<forall>j<row_nr. \<not> is_note_nlp_note_id (fields_csv ! j)) \<and>
           df = fields_csv[row_nr := (fields_csv ! row_nr)\<lparr>isForeignKey := ''Yes'',
                   fkTableName := Some ''NOTE'', fkFieldName := Some ''NOTE_ID''\<rparr>]"
proof -
  obtain row_nr where r: "note_nlp_row_nr fields_csv = Inr row_nr"
    using assms unfolding correct_note_nlp_def by (cases "note_nlp_row_nr fields_csv") auto
  then obtain rest where
    "filter (\<lambda>i. is_note_nlp_note_id (fields_csv ! i)) [0..<length fields_csv] = row_nr # rest"
    unfolding note_nlp_row_nr_def by (auto split: list.splits)
  from filter_upt_first[OF this] show ?thesis
    using assms r unfolding correct_note_nlp_def by auto
qed

lemma correct_note_nlp_Inl:
  "(\<exists>e. correct_note_nlp fields_csv = Inl e) \<longleftrightarrow>
     (\<forall>j<length fields_csv. \<not> is_note_nlp_note_id (fields_csv ! j))"
  unfolding correct_note_nlp_def note_nlp_row_nr_def
  using filter_upt_empty[of "\<lambda>i. is_note_nlp_note_id (fields_csv ! i)" "length fields_csv"]
  by (auto split: list.splits)

definition note_tables :: "table_row list" where
  "note_tables = [\<lparr>tl_cdmTableName = ''NOTE'', tl_schema = ''CDM''\<rparr>,
                  \<lparr>tl_cdmTableName = ''NOTE_NLP'', tl_schema = ''CDM''\<rparr>]"

definition note_fields :: "field_row list" where
  "note_fields =
     [field ''NOTE'' ''NOTE_ID'' ''integer'' ''Yes'' None,
      field ''NOTE_NLP'' ''NOTE_NLP_ID'' ''integer'' ''Yes'' None,
      field ''NOTE_NLP'' ''NOTE_ID'' ''integer'' ''No'' None]"

definition note_etl :: etl_base where
  "note_etl =
     \<lparr>df_omop_tables = note_tables,
      df_omop_fields = note_fields[2 := (note_fields ! 2)\<lparr>isForeignKey := ''Yes'',
                         fkTableName := Some ''NOTE'', fkFieldName := Some ''NOTE_ID''\<rparr>],
      cdm_tables_fks_dependencies_resolved = [[''note''], [''note_nlp'']]\<rparr>"

lemma note_init: "init_etl_base note_tables note_fields = Inr note_etl"
  by code_simp

text \<open>
  Claim C7. Every construction that succeeds has corrected exactly one row of the loaded
  field metadata, the first row of NOTE\_NLP.NOTE\_ID, which now refers to NOTE.NOTE\_ID; every
  other row is as loaded, and the tiers of the object are those resolved from the corrected
  metadata. The result is a function of the loaded frames alone, so every run corrects the
  same row in the same way. A catalog without such a row cannot be constructed: the
  constructor raises \<open>IndexError\<close>.
\<close>

theorem note_nlp_edge_corrected:
  "(init_etl_base tables_csv fields_csv = Inr self \<longrightarrow>
      (\<exists>row_nr<length fields_csv.
          is_note_nlp_note_id (fields_csv ! row_nr) \<and>
          (\<forall>j<row_nr. \<not> is_note_nlp_note_id (fields_csv ! j)) \<and>
          df_omop_fields self =
            fields_csv[row_nr := (fields_csv ! row_nr)\<lparr>isForeignKey := ''Yes'',
               fkTableName := Some ''NOTE'', fkFieldName := Some ''NOTE_ID''\<rparr>] \<and>
          length (df_omop_fields self) = length fields_csv \<and>
          (\<forall>j<length fields_csv. j \<noteq> row_nr \<longrightarrow> df_omop_fields self ! j = fields_csv ! j) \<and>
          df_omop_tables self = tables_csv \<and>
          build_fk_dependency_tree_of_tables (df_omop_fields self) (working_tables tables_csv) =
            Inr (cdm_tables_fks_dependencies_resolved self))) \<and>
   ((\<forall>j<length fields_csv. \<not> is_note_nlp_note_id (fields_csv ! j)) \<longrightarrow>
      init_etl_base tables_csv fields_csv = Inl IndexError)"
proof (intro conjI impI)
  assume init: "init_etl_base tables_csv fields_csv = Inr self"
  then obtain df where df: "correct_note_nlp fields_csv = Inr df"
    unfolding init_etl_base_def by (cases "correct_note_nlp fields_csv") auto
  let ?s = "\<lparr>df_omop_tables = tables_csv, df_omop_fields = df,
             cdm_tables_fks_dependencies_resolved = []\<rparr>"
  have res: "resolve_cdm_tables_fks_dependencies ?s = (None, self)"
    using init df unfolding init_etl_base_def by (auto split: prod.splits option.splits)
  then obtain tiers where tiers: "build_fk_dependency_tree_of_tables df (working_tables tables_csv) = Inr tiers"
    "self = ?s\<lparr>cdm_tables_fks_dependencies_resolved := tiers\<rparr>"
    unfolding resolve_cdm_tables_fks_dependencies_def Let_def by (auto split: sum.splits)
  obtain row_nr where r: "row_nr < length fields_csv" "is_note_nlp_note_id (fields_csv ! row_nr)"
    "\<forall>j<row_nr. \<not> is_note_nlp_note_id (fields_csv ! j)"
    "df = fields_csv[row_nr := (fields_csv ! row_nr)\<lparr>isForeignKey := ''Yes'',
                   fkTableName := Some ''NOTE'', fkFieldName := Some ''NOTE_ID''\<rparr>]"
    using correct_note_nlp_Inr[OF df] by blast
  have "df_omop_fields self = df" "df_omop_tables self = tables_csv"
    "cdm_tables_fks_dependencies_resolved self = tiers" using tiers(2) by simp_all
  then show "\<exists>row_nr<length fields_csv.
          is_note_nlp_note_id (fields_csv ! row_nr) \<and>
          (\<forall>j<row_nr. \<not> is_note_nlp_note_id (fields_csv ! j)) \<and>
          df_omop_fields self =
            fields_csv[row_nr := (fields_csv ! row_nr)\<lparr>isForeignKey := ''Yes'',
               fkTableName := Some ''NOTE'', fkFieldName := Some ''NOTE_ID''\<rparr>] \<and>
          length (df_omop_fields self) = length fields_csv \<and>
          (\<forall>j<length fields_csv. j \<noteq> row_nr \<longrightarrow> df_omop_fields self ! j = fields_csv ! j) \<and>
          df_omop_tables self = tables_csv \<and>
          build_fk_dependency_tree_of_tables (df_omop_fields self) (working_tables tables_csv) =
            Inr (cdm_tables_fks_dependencies_resolved self)"
    using r tiers(1) by (intro exI[of _ row_nr]) simp
next
  assume "\<forall>j<length fields_csv. \<not> is_note_nlp_note_id (fields_csv ! j)"
  then have "filter (\<lambda>i. is_note_nlp_note_id (fields_csv ! i)) [0..<length fields_csv] = []"
    by (simp add: filter_upt_empty)
  then show "init_etl_base tables_csv fields_csv = Inl IndexError"
    unfolding init_etl_base_def correct_note_nlp_def note_nlp_row_nr_def by simp
qed

lemma note_row: "is_note_nlp_note_id (note_fields ! 2) \<and> \<not> is_note_nlp_note_id (note_fields ! 0) \<and>
    \<not> is_note_nlp_note_id (note_fields ! 1)"
  by code_simp

theorem note_nlp_edge_corrected_witness:
  "init_etl_base note_tables note_fields = Inr note_etl \<and>
   is_note_nlp_note_id (note_fields ! 2) \<and>
   df_omop_fields note_etl =
     note_fields[2 := (note_fields ! 2)\<lparr>isForeignKey := ''Yes'',
        fkTableName := Some ''NOTE'', fkFieldName := Some ''NOTE_ID''\<rparr>] \<and>
   df_omop_fields note_etl ! 0 = note_fields ! 0 \<and>
   df_omop_fields note_etl ! 1 = note_fields ! 1 \<and>
   build_fk_dependency_tree_of_tables (df_omop_fields note_etl) (working_tables note_tables) =
     Inr [[''note''], [''note_nlp'']] \<and>
   init_etl_base note_tables [] = Inl IndexError"
proof -
  have a: "build_fk_dependency_tree_of_tables (df_omop_fields note_etl) (working_tables note_tables) =
     Inr (cdm_tables_fks_dependencies_resolved note_etl)"
    using note_nlp_edge_corrected[of note_tables note_fields note_etl] note_init by blast
  have b: "init_etl_base note_tables [] = Inl IndexError"
    using note_nlp_edge_corrected[of note_tables "[]" note_etl] by simp
  show ?thesis using a b note_init note_row by (simp add: note_etl_def note_fields_def)
qed

section \<open>The primary key of a table (etl\_base.py and bigquery.py)\<close>

text \<open>
  \<^verbatim>\<open>EtlBase._is_pk_auto_numbering\<close> (lines 218--239) counts the rows of the table that are a
  primary key of declared type \<^verbatim>\<open>integer\<close>; \<^verbatim>\<open>EtlBase._get_pk\<close> (lines 241--258) is the
  field of the first primary-key row (\<^verbatim>\<open>len(fks) > 0 and fks[0] or None\<close>, so an empty
  field name gives \<open>None\<close>). \<open>pk_datatype\<close> reads the declared type of that field.
\<close>

definition is_pk_auto_numbering :: "field_row list \<Rightarrow> string \<Rightarrow> bool" where
  "is_pk_auto_numbering df_fields omop_table_name \<longleftrightarrow>
     length (filter (\<lambda>r. lower (cdmTableName r) = omop_table_name \<and> isPrimaryKey r = ''Yes'' \<and>
                         cdmDatatype r = ''integer'') df_fields) > 0"

definition get_pk :: "field_row list \<Rightarrow> string \<Rightarrow> string option" where
  "get_pk df_fields omop_table_name =
     (let fks = map cdmFieldName
                  (filter (\<lambda>r. lower (cdmTableName r) = omop_table_name \<and> isPrimaryKey r = ''Yes'')
                          df_fields)
      in if length fks > 0 \<and> fks ! 0 \<noteq> [] then Some (fks ! 0) else None)"

definition pk_datatype :: "field_row list \<Rightarrow> string \<Rightarrow> string option" where
  "pk_datatype df_fields omop_table_name =
     (case filter (\<lambda>r. lower (cdmTableName r) = omop_table_name \<and> isPrimaryKey r = ''Yes'')
                  df_fields of
        [] \<Rightarrow> None
      | r # _ \<Rightarrow> Some (cdmDatatype r))"

text \<open>
  The catalog of \<^verbatim>\<open>Etl\<close> (etl.py) is the JSON object of the schema file: a dictionary from
  table name to the properties of the table. \<^verbatim>\<open>getattr(props, "pk", None)\<close> is \<open>pk\<close>; an absent
  \<^verbatim>\<open>fks\<close> or \<^verbatim>\<open>concepts\<close> has the default of the \<^verbatim>\<open>getattr\<close> calls, the empty one.
\<close>

record omop_table_props =
  pk :: "string option"
  fks :: "(string \<times> string \<times> string) list"
  concepts :: "string list"

text \<open>
  \<^verbatim>\<open>BigQuery._is_pk_auto_numbering\<close> (bigquery.py, lines 129--141) reads the metadata of the
  primary-key column from the warehouse; \<open>column_metadata\<close> stands for
  \<^verbatim>\<open>Gcp.get_column_metadata\<close>, which is not among the sources. \<^verbatim>\<open>omop_table_props.pk\<close> raises
  \<open>AttributeError\<close> when the table declares no primary key.
\<close>

definition bigquery_is_pk_auto_numbering ::
  "(string \<Rightarrow> string \<Rightarrow> (string \<rightharpoonup> string)) \<Rightarrow> string \<Rightarrow> omop_table_props \<Rightarrow> error + bool" where
  "bigquery_is_pk_auto_numbering column_metadata omop_table_name omop_table_props =
     (case pk omop_table_props of
        None \<Rightarrow> Inl AttributeError
      | Some pk_column \<Rightarrow>
          Inr (column_metadata omop_table_name pk_column ''data_type'' = Some ''INT64''))"

section \<open>The pipeline driver of \<^verbatim>\<open>Etl\<close> (etl.py)\<close>

text \<open>
  The driver works through the methods the storage backend implements. Each call of such a
  method, and of the three methods of \<^verbatim>\<open>Etl\<close> that \<^verbatim>\<open>_process_omop_folder\<close> delegates a whole
  stage to, is an event; the arguments kept are the table, the column or query file, the
  primary key and the auto-numbering flag (the column list, the concept list and the
  foreign-key argument that lines 146--152 and 171--239 compute take no part in the control
  flow and are left out).
\<close>

datatype event =
    UploadCustomConcepts string string
  | ApplyUsagiMapping string string
  | ExecuteQueryIntoWorkTable string string
  | SwapPrimaryKeyAutoNumberingColumn string string "string option" string bool
  | MergeIntoOmopTable string string "string option" "string option" bool
  | SourceToConceptMapUpdateInvalidReason
  | TruncateOmopTable string
  | RemoveCustomConceptsFromConceptTable
  | RemoveCustomConceptsFromConceptRelationshipTable
  | RemoveCustomConceptsFromConceptAncestorTable
  | RemoveCustomConceptsFromConceptTableUsingUsagiTable string string
  | RemoveCustomConceptsFromConceptRelationshipTableUsingUsagiTable string string
  | RemoveCustomConceptsFromConceptAncestorTableUsingUsagiTable string string
  | RemoveSourceToConceptMapUsingUsagiTable string string
  | DeleteWorkTable string

text \<open>
  What the driver reads from outside: the columns of a table in the warehouse, the answer of
  the backend's \<^verbatim>\<open>_is_pk_auto_numbering\<close>, the query files of a table folder (the sorted
  \<^verbatim>\<open>*.sql\<close> files, then the sorted \<^verbatim>\<open>*.sql.jinja\<close> files), whether the name of a query file
  matches the pattern of line 173, the work tables, and which call raises what, given the
  calls made so far.
\<close>

record world =
  get_column_names :: "string \<Rightarrow> error + string list"
  backend_is_pk_auto_numbering :: "string \<Rightarrow> omop_table_props \<Rightarrow> error + bool"
  glob_sql_files :: "string \<Rightarrow> string list"
  fact_relationship_file_matches :: "string \<Rightarrow> bool"
  get_work_tables :: "error + string list"
  raises :: "event list \<Rightarrow> event \<Rightarrow> error option"

record etl =
  only_omop_table :: "string option"
  skip_usagi_and_custom_concept_upload :: "bool option"
  omop_tables :: "(string \<times> omop_table_props) list"

text \<open>
  A procedure takes the events so far and returns the exception it raised, if any, and the
  events it added. Statements in sequence stop at the first exception.
\<close>

type_synonym proc = "event list \<Rightarrow> error option \<times> event list"

definition skip :: proc where
  "skip h = (None, [])"

definition raise :: "error \<Rightarrow> proc" where
  "raise e h = (Some e, [])"

definition call :: "world \<Rightarrow> event \<Rightarrow> proc" where
  "call w e h = (case raises w h e of Some err \<Rightarrow> (Some err, []) | None \<Rightarrow> (None, [e]))"

definition then_do :: "proc \<Rightarrow> proc \<Rightarrow> proc" where
  "then_do p q h =
     (case p h of
        (Some e, l) \<Rightarrow> (Some e, l)
      | (None, l) \<Rightarrow> (case q (h @ l) of (r, l') \<Rightarrow> (r, l @ l')))"

fun for_each :: "('a \<Rightarrow> proc) \<Rightarrow> 'a list \<Rightarrow> proc" where
  "for_each f [] = skip"
| "for_each f (x # xs) = then_do (f x) (for_each f xs)"







text \<open>
  \<^verbatim>\<open>cleanup\<close>, lines 568--657, and the string methods it uses: \<^verbatim>\<open>split("__")\<close> cuts at the
  double underscores from the left, element 1 of a split without a cut raises \<open>IndexError\<close>.
\<close>

fun split_dunder :: "string \<Rightarrow> string \<Rightarrow> string list" where
  "split_dunder acc (c # d # cs) =
     (if c = CHR ''_'' \<and> d = CHR ''_'' then rev acc # split_dunder [] cs
      else split_dunder (c # acc) (d # cs))"
| "split_dunder acc [c] = [rev (c # acc)]"
| "split_dunder acc [] = [rev acc]"

definition startswith :: "string \<Rightarrow> string \<Rightarrow> bool" where
  "startswith s p \<longleftrightarrow> prefix p s"

definition endswith :: "string \<Rightarrow> string \<Rightarrow> bool" where
  "endswith s p \<longleftrightarrow> suffix p s"

definition removesuffix :: "string \<Rightarrow> string \<Rightarrow> string" where
  "removesuffix s p = (if suffix p s then take (length s - length p) s else s)"

definition custom_cleanup :: "world \<Rightarrow> string \<Rightarrow> string \<Rightarrow> proc" where
  "custom_cleanup w cleanup_table table_name =
     (if startswith table_name cleanup_table \<and> endswith table_name ''_concept'' then
        (case split_dunder [] table_name of
           omop_table # second # _ \<Rightarrow>
             (let concept_id_column = removesuffix second ''_concept''
              in then_do
                   (call w (RemoveCustomConceptsFromConceptTableUsingUsagiTable
                              omop_table concept_id_column))
                   (then_do
                      (call w (RemoveCustomConceptsFromConceptRelationshipTableUsingUsagiTable
                                 omop_table concept_id_column))
                      (call w (RemoveCustomConceptsFromConceptAncestorTableUsingUsagiTable
                                 omop_table concept_id_column))))
         | _ \<Rightarrow> raise IndexError)
      else if startswith table_name cleanup_table \<and> endswith table_name ''_usagi'' then
        (case split_dunder [] table_name of
           omop_table # second # _ \<Rightarrow>
             call w (RemoveSourceToConceptMapUsingUsagiTable omop_table
                       (removesuffix second ''_usagi''))
         | _ \<Rightarrow> raise IndexError)
      else skip)"

definition cleanup :: "world \<Rightarrow> etl \<Rightarrow> string \<Rightarrow> proc" where
  "cleanup w self cleanup_table =
     (case get_work_tables w of
        Inl e \<Rightarrow> raise e
      | Inr work_tables \<Rightarrow>
          then_do
            (if cleanup_table = ''all'' then
               then_do (call w (TruncateOmopTable ''source_to_concept_map''))
                 (then_do (call w RemoveCustomConceptsFromConceptTable)
                    (then_do (call w RemoveCustomConceptsFromConceptRelationshipTable)
                       (call w RemoveCustomConceptsFromConceptAncestorTable)))
             else for_each (custom_cleanup w cleanup_table) work_tables)
            (then_do
               (for_each (\<lambda>table_name.
                    if cleanup_table = ''all'' \<or> startswith table_name cleanup_table
                    then call w (DeleteWorkTable table_name) else skip) work_tables)
               (for_each (\<lambda>table_name.
                    if cleanup_table = ''all'' \<or> table_name = cleanup_table
                    then call w (TruncateOmopTable table_name) else skip)
                  (filter (\<lambda>x. x \<notin> set [''vocabulary'']) (map fst (omop_tables self))))))"

subsection \<open>Procedures: what they emit and where they stop\<close>

definition emits :: "(event \<Rightarrow> bool) \<Rightarrow> proc \<Rightarrow> bool" where
  "emits Q p \<longleftrightarrow> (\<forall>h e. e \<in> set (snd (p h)) \<longrightarrow> Q e)"

lemma emits_skip: "emits Q skip"
  by (simp add: emits_def skip_def)

lemma emits_raise: "emits Q (raise e)"
  by (simp add: emits_def raise_def)

lemma emits_call: "Q e \<Longrightarrow> emits Q (call w e)"
  by (auto simp: emits_def call_def split: option.splits)

lemma emits_then_do: "emits Q p \<Longrightarrow> emits Q q \<Longrightarrow> emits Q (then_do p q)"
  unfolding emits_def then_do_def
  by (auto split: prod.splits option.splits) (metis snd_conv)+

lemma emits_for_each: "(\<And>x. x \<in> set xs \<Longrightarrow> emits Q (f x)) \<Longrightarrow> emits Q (for_each f xs)"
  by (induction xs) (simp_all add: emits_skip emits_then_do)

lemma emitsD: "emits Q p \<Longrightarrow> p h = (r, l) \<Longrightarrow> e \<in> set l \<Longrightarrow> Q e"
  unfolding emits_def by (metis snd_conv)

lemma then_do_raises: "p h = (Some e, l) \<Longrightarrow> then_do p q h = (Some e, l)"
  by (simp add: then_do_def)

lemma then_do_None:
  "then_do p q h = (None, l) \<Longrightarrow>
     \<exists>l1 l2. p h = (None, l1) \<and> q (h @ l1) = (None, l2) \<and> l = l1 @ l2"
  by (auto simp: then_do_def split: prod.splits option.splits)

lemma for_each_raises:
  "for_each f pre h = (None, l1) \<Longrightarrow> f x (h @ l1) = (Some e, l2) \<Longrightarrow>
     for_each f (pre @ x # post) h = (Some e, l1 @ l2)"
proof (induction pre arbitrary: h l1)
  case Nil
  then show ?case by (simp add: skip_def then_do_def)
next
  case (Cons a pre)
  obtain la lb where a: "f a h = (None, la)" "for_each f pre (h @ la) = (None, lb)" "l1 = la @ lb"
    using then_do_None[of "f a" "for_each f pre" h l1] Cons.prems(1) by auto
  have "for_each f (pre @ x # post) (h @ la) = (Some e, lb @ l2)"
    using Cons.IH[OF a(2)] Cons.prems(2) a(3) by simp
  then show ?case using a by (simp add: then_do_def)
qed

end
